theory Spec2Isabelle
  imports Complex_Main
begin

section \<open>Python values used by the pipeline\<close>

text \<open>
  A Python \<^verbatim>\<open>str\<close> holding document text is a list of Unicode code points.
  File names, record ids and metadata keys are plain ASCII and are kept as
  \<^typ>\<open>string\<close>. Token ids are natural numbers.
\<close>

type_synonym pystr = "nat list"

type_synonym token = nat

datatype py_error = ValueError | IndexError

text \<open>
  The bounds of a slice \<^verbatim>\<open>xs[lo:hi]\<close>: a negative bound counts from the end, and
  every bound is clamped to \<open>0 .. len(xs)\<close>.
\<close>

definition py_index :: "nat \<Rightarrow> int \<Rightarrow> nat" where
  "py_index n i =
     (if i < 0 then (if i + int n < 0 then 0 else nat (i + int n))
      else if int n < i then n else nat i)"

definition py_slice :: "'a list \<Rightarrow> int \<Rightarrow> int \<Rightarrow> 'a list" where
  "py_slice xs lo hi =
     (let l = py_index (length xs) lo; h = py_index (length xs) hi
      in take (h - l) (drop l xs))"

text \<open>
  \<^verbatim>\<open>range(lo, hi, step)\<close> for a step other than zero (a zero step raises
  \<^verbatim>\<open>ValueError\<close> in the caller).
\<close>

function py_range :: "int \<Rightarrow> int \<Rightarrow> int \<Rightarrow> int list" where
  "py_range lo hi step =
     (if 0 < step \<and> lo < hi then lo # py_range (lo + step) hi step
      else if step < 0 \<and> hi < lo then lo # py_range (lo + step) hi step
      else [])"
  by pat_completeness auto
termination
  by (relation "measure (\<lambda>(lo, hi, step). nat (if 0 < step then hi - lo else lo - hi))") auto

declare py_range.simps [simp del]

text \<open>
  The characters that \<^verbatim>\<open>str.isspace\<close>, \<^verbatim>\<open>str.strip\<close> and the pattern \<^verbatim>\<open>\s\<close> of
  \<^verbatim>\<open>re\<close> treat as whitespace: U+0009..U+000D, U+001C..U+0020, U+0085, U+00A0,
  U+1680, U+2000..U+200A, U+2028, U+2029, U+202F, U+205F and U+3000.
\<close>

definition isspace :: "nat \<Rightarrow> bool" where
  "isspace c \<longleftrightarrow>
     (9 \<le> c \<and> c \<le> 13) \<or> (28 \<le> c \<and> c \<le> 32) \<or> c = 133 \<or> c = 160 \<or> c = 5760 \<or>
     (8192 \<le> c \<and> c \<le> 8202) \<or> c = 8232 \<or> c = 8233 \<or> c = 8239 \<or> c = 8287 \<or> c = 12288"

section \<open>ingest.py: chunking\<close>

text \<open>
  The tiktoken encoding \<^verbatim>\<open>enc\<close> is a library object. Its two methods are taken as
  they are, as the fields of a record.
\<close>

record encoding =
  encode :: "pystr \<Rightarrow> token list"
  decode :: "token list \<Rightarrow> pystr"


text \<open>
  The \<^verbatim>\<open>while\<close> loop of \<^verbatim>\<open>chunk_text\<close>, with the window start \<open>i\<close> and the list
  \<open>chunks\<close> as its state. The loop has no bound of its own, so not returning is
  the value \<open>None\<close>. The function applied to each window is a parameter: the source
  applies \<^verbatim>\<open>enc.decode\<close>.
\<close>

partial_function (option) chunk_loop ::
  "(token list \<Rightarrow> 'a) \<Rightarrow> token list \<Rightarrow> int \<Rightarrow> int \<Rightarrow> int \<Rightarrow> 'a list \<Rightarrow> 'a list option"
where
  "chunk_loop dec tokens max_tokens overlap i chunks =
     (if i < int (length tokens)
      then chunk_loop dec tokens max_tokens overlap (i + (max_tokens - overlap))
             (chunks @ [dec (py_slice tokens i (i + max_tokens))])
      else Some chunks)"

definition chunk_text :: "encoding \<Rightarrow> pystr \<Rightarrow> int \<Rightarrow> int \<Rightarrow> pystr list option" where
  "chunk_text enc text max_tokens overlap =
     chunk_loop (decode enc) (encode enc text) max_tokens overlap 0 []"

text \<open>
  The token windows \<^verbatim>\<open>tokens[i:i+max_tokens]\<close> that the same loop takes, before
  they are decoded.
\<close>

definition chunk_windows :: "token list \<Rightarrow> int \<Rightarrow> int \<Rightarrow> token list list option" where
  "chunk_windows tokens max_tokens overlap =
     chunk_loop (\<lambda>window. window) tokens max_tokens overlap 0 []"

text \<open>The last \<open>k\<close> elements of a list (all of it when it is shorter).\<close>

definition last_n :: "nat \<Rightarrow> 'a list \<Rightarrow> 'a list" where
  "last_n k xs = drop (length xs - k) xs"

text \<open>
  \<^verbatim>\<open>clean\<close>: \<^verbatim>\<open>re.sub(r"\s+", " ", s)\<close> replaces every maximal run of whitespace by
  one space (code point 32), and \<^verbatim>\<open>strip\<close> removes the whitespace at both ends.
\<close>

function re_sub_ws :: "pystr \<Rightarrow> pystr" where
  "re_sub_ws [] = []"
| "re_sub_ws (c # cs) =
     (if isspace c then 32 # re_sub_ws (dropWhile isspace cs) else c # re_sub_ws cs)"
  by pat_completeness auto
termination
  by (relation "measure length") (auto simp: le_imp_less_Suc length_dropWhile_le)

definition strip :: "pystr \<Rightarrow> pystr" where
  "strip s = rev (dropWhile isspace (rev (dropWhile isspace s)))"

definition clean :: "pystr \<Rightarrow> pystr" where
  "clean s = strip (re_sub_ws s)"

section \<open>ingest.py: pages, embedding and indexing\<close>


datatype meta_value = MStr string | MInt int

type_synonym metadata = "(string \<times> meta_value) list"

record 'v chroma_record =
  rec_id :: string
  rec_document :: pystr
  rec_metadata :: metadata
  rec_embedding :: 'v

text \<open>
  What the functions act on outside their arguments: the inputs sent to the
  embedding service so far (one entry per call), the Chroma collections, keyed by
  storage path and collection name, and the names of the files in \<^verbatim>\<open>DATA_DIR\<close>.
\<close>

record 'v world =
  embed_calls :: "pystr list list"
  chroma :: "string \<times> string \<Rightarrow> 'v chroma_record list option"
  data_files :: "string set"

definition col_records :: "'v world \<Rightarrow> string \<times> string \<Rightarrow> 'v chroma_record list" where
  "col_records w key = (case chroma w key of None \<Rightarrow> [] | Some records \<Rightarrow> records)"

text \<open>
  \<^verbatim>\<open>client.embeddings.create(model=EMBED_MODEL, input=batch)\<close>: the service is a
  parameter giving the vectors of \<^verbatim>\<open>resp.data\<close> for an input list; the call is
  recorded in the world.
\<close>

definition embeddings_create ::
  "(pystr list \<Rightarrow> 'v list) \<Rightarrow> pystr list \<Rightarrow> 'v world \<Rightarrow> 'v list \<times> 'v world" where
  "embeddings_create service batch w = (service batch, w\<lparr>embed_calls := embed_calls w @ [batch]\<rparr>)"

text \<open>The body of the \<^verbatim>\<open>for i in range(0, n, batch_size)\<close> loop of \<^verbatim>\<open>embed_batches\<close>
  (the progress output is left out).\<close>

fun embed_batches_loop ::
  "(pystr list \<Rightarrow> 'v list) \<Rightarrow> pystr list \<Rightarrow> int \<Rightarrow> int list \<Rightarrow> 'v list \<Rightarrow> 'v world
     \<Rightarrow> 'v list \<times> 'v world" where
  "embed_batches_loop service texts batch_size [] all_vecs w = (all_vecs, w)"
| "embed_batches_loop service texts batch_size (i # rest) all_vecs w =
     (let batch = py_slice texts i (i + batch_size);
          (vecs, w') = embeddings_create service batch w
      in embed_batches_loop service texts batch_size rest (all_vecs @ vecs) w')"

definition embed_batches ::
  "(pystr list \<Rightarrow> 'v list) \<Rightarrow> pystr list \<Rightarrow> int \<Rightarrow> 'v world \<Rightarrow> (py_error + 'v list) \<times> 'v world" where
  "embed_batches service texts batch_size w =
     (if batch_size = 0 then (Inl ValueError, w)
      else let (all_vecs, w') =
                 embed_batches_loop service texts batch_size
                   (py_range 0 (int (length texts)) batch_size) [] w
           in (Inr all_vecs, w'))"

text \<open>The slices \<^verbatim>\<open>texts[i:i+batch_size]\<close> for \<open>i\<close> in \<^verbatim>\<open>range(0, len(texts), batch_size)\<close>.\<close>

definition batches_of :: "'a list \<Rightarrow> int \<Rightarrow> 'a list list" where
  "batches_of texts batch_size =
     map (\<lambda>i. py_slice texts i (i + batch_size)) (py_range 0 (int (length texts)) batch_size)"

text \<open>Modelled from the spec: the vector store is the chromadb library. A collection is
  created once, empty, and reused (section 4.3, invariant).\<close>

definition get_or_create_collection :: "string \<times> string \<Rightarrow> 'v world \<Rightarrow> 'v world" where
  "get_or_create_collection key w =
     (case chroma w key of None \<Rightarrow> w\<lparr>chroma := (chroma w)(key \<mapsto> [])\<rparr> | Some records \<Rightarrow> w)"


text \<open>Modelled from the spec: \<open>delete_where(predicate over metadata)\<close> of section 4.3
  removes all matching records; the predicate \<^verbatim>\<open>where={key: value}\<close> matches the
  records whose metadata has that value under that key.\<close>

definition where_matches :: "metadata \<Rightarrow> metadata \<Rightarrow> bool" where
  "where_matches wh m = list_all (\<lambda>(k, v). map_of m k = Some v) wh"

definition col_delete :: "string \<times> string \<Rightarrow> metadata \<Rightarrow> 'v world \<Rightarrow> 'v world" where
  "col_delete key wh w =
     (case chroma w key of
        None \<Rightarrow> w
      | Some records \<Rightarrow>
          w\<lparr>chroma := (chroma w)(key \<mapsto> filter (\<lambda>r. \<not> where_matches wh (rec_metadata r)) records)\<rparr>)"








section \<open>answer\_once.py: retrieval\<close>

definition embed :: "(pystr list \<Rightarrow> 'v list) \<Rightarrow> pystr \<Rightarrow> py_error + 'v" where
  "embed service q = (case service [q] of [] \<Rightarrow> Inl IndexError | v # rest \<Rightarrow> Inr v)"

text \<open>The dictionary returned by \<^verbatim>\<open>col.query\<close>: a field is \<open>None\<close> when its key is
  absent, otherwise one row per query embedding.\<close>

record 'd query_result =
  res_documents :: "pystr option list list option"
  res_metadatas :: "metadata option list list option"
  res_distances :: "'d list list option"
  res_ids :: "string list list option"

text \<open>\<^verbatim>\<open>res.get(field, [[]])[0]\<close>.\<close>

definition first_row :: "'a list list option \<Rightarrow> py_error + 'a list" where
  "first_row field =
     (case (case field of None \<Rightarrow> [[]] | Some rows \<Rightarrow> rows) of
        [] \<Rightarrow> Inl IndexError
      | row # rest \<Rightarrow> Inr row)"

text \<open>\<^verbatim>\<open>not d\<close> and \<^verbatim>\<open>not m\<close>: true of \<^verbatim>\<open>None\<close>, of the empty string and of the empty
  dictionary.\<close>

definition not_doc :: "pystr option \<Rightarrow> bool" where
  "not_doc d = (case d of None \<Rightarrow> True | Some text \<Rightarrow> text = [])"

definition not_meta :: "metadata option \<Rightarrow> bool" where
  "not_meta m = (case m of None \<Rightarrow> True | Some meta \<Rightarrow> meta = [])"

type_synonym page_key = "meta_value option \<times> meta_value option"

text \<open>\<^verbatim>\<open>(m.get("source"), m.get("page"))\<close>; the loop computes it only past the guard,
  where \<open>m\<close> is a dictionary.\<close>

definition meta_key :: "metadata option \<Rightarrow> page_key" where
  "meta_key m =
     (case m of None \<Rightarrow> (None, None) | Some meta \<Rightarrow> (map_of meta ''source'', map_of meta ''page''))"

type_synonym candidate = "pystr option \<times> metadata option \<times> string"

text \<open>The de-duplication loop over \<^verbatim>\<open>zip(docs, metas, ids)\<close>, with \<open>uniq\<close> and the three
  output lists as its state; \<^verbatim>\<open>break\<close> returns the state at once.\<close>

fun retrieve_loop ::
  "int \<Rightarrow> candidate list \<Rightarrow> page_key set
     \<Rightarrow> pystr option list \<times> metadata option list \<times> string list
     \<Rightarrow> pystr option list \<times> metadata option list \<times> string list" where
  "retrieve_loop k [] uniq out = out"
| "retrieve_loop k ((d, m, i) # rest) uniq (out_docs, out_metas, out_ids) =
     (if not_doc d \<or> not_meta m then retrieve_loop k rest uniq (out_docs, out_metas, out_ids)
      else if meta_key m \<in> uniq then retrieve_loop k rest uniq (out_docs, out_metas, out_ids)
      else if int (length (out_docs @ [d])) = k
           then (out_docs @ [d], out_metas @ [m], out_ids @ [i])
           else retrieve_loop k rest (insert (meta_key m) uniq)
                  (out_docs @ [d], out_metas @ [m], out_ids @ [i]))"

definition retrieve ::
  "(pystr list \<Rightarrow> 'v list) \<Rightarrow> ('v \<Rightarrow> int \<Rightarrow> 'd query_result) \<Rightarrow> pystr \<Rightarrow> int
     \<Rightarrow> py_error + (pystr option list \<times> metadata option list \<times> string list)" where
  "retrieve service col_query q k =
     (case embed service q of
        Inl e \<Rightarrow> Inl e
      | Inr qvec \<Rightarrow>
          (let res = col_query qvec k
           in case first_row (res_documents res) of
                Inl e \<Rightarrow> Inl e
              | Inr docs \<Rightarrow>
             (case first_row (res_metadatas res) of
                Inl e \<Rightarrow> Inl e
              | Inr metas \<Rightarrow>
             (case first_row (res_distances res) of
                Inl e \<Rightarrow> Inl e
              | Inr dists \<Rightarrow>
             (case first_row (res_ids res) of
                Inl e \<Rightarrow> Inl e
              | Inr ids \<Rightarrow>
                  Inr (retrieve_loop k (zip docs (zip metas ids)) {} ([], [], [])))))))"

section \<open>app.py: deleting a document\<close>

text \<open>
  The body of the route \<^verbatim>\<open>DELETE /pdfs/{filename}\<close>, which runs once the token
  check of \<^verbatim>\<open>get_current_user\<close> has passed. It returns \<^verbatim>\<open>{"ok": True}\<close>.
\<close>

definition delete_pdf :: "string \<Rightarrow> 'v world \<Rightarrow> bool \<times> 'v world" where
  "delete_pdf filename w =
     (let w1 = (if filename \<in> data_files w then w\<lparr>data_files := data_files w - {filename}\<rparr> else w);
          col = (''chroma'', ''edu-tutor'');
          w2 = get_or_create_collection col w1;
          w3 = col_delete col [(''source'', MStr filename)] w2
      in (True, w3))"

section \<open>Auxiliary notions\<close>

text \<open>A text is single-spaced when its only whitespace characters are spaces (code
  point 32) and no two of them are adjacent.\<close>

fun single_spaced :: "pystr \<Rightarrow> bool" where
  "single_spaced [] = True"
| "single_spaced [c] = (isspace c \<longrightarrow> c = 32)"
| "single_spaced (c # d # cs) = ((isspace c \<longrightarrow> c = 32 \<and> \<not> isspace d) \<and> single_spaced (d # cs))"

text \<open>The key of a candidate, the candidates that pass the guard of the retrieval
  loop, and the first candidate of each key not seen before, in order.\<close>

definition cand_key :: "candidate \<Rightarrow> page_key" where
  "cand_key c = meta_key (fst (snd c))"

definition passes_guard :: "candidate \<Rightarrow> bool" where
  "passes_guard c \<longleftrightarrow> \<not> (not_doc (fst c) \<or> not_meta (fst (snd c)))"

fun first_per_key :: "page_key set \<Rightarrow> candidate list \<Rightarrow> candidate list" where
  "first_per_key seen [] = []"
| "first_per_key seen (c # cs) =
     (if cand_key c \<in> seen then first_per_key seen cs
      else c # first_per_key (insert (cand_key c) seen) cs)"

text \<open>What a loop that stops once it holds \<open>k\<close> items adds, from a list of items to
  add, when it already holds \<open>n\<close>.\<close>

definition kept :: "int \<Rightarrow> nat \<Rightarrow> 'a list \<Rightarrow> 'a list" where
  "kept k n xs = (if int n < k then take (nat (k - int n)) xs else xs)"

section \<open>Slices and ranges\<close>

lemma py_slice_nonneg:
  "0 \<le> lo \<Longrightarrow> lo \<le> hi \<Longrightarrow> py_slice xs lo hi = take (nat (hi - lo)) (drop (nat lo) xs)"
  by (auto simp: py_slice_def py_index_def Let_def nat_diff_distrib)

lemma py_range_pos_length:
  "0 < step \<Longrightarrow> int (length (py_range lo hi step)) = (if lo < hi then - ((lo - hi) div step) else 0)"
proof (induction lo hi step rule: py_range.induct)
  case (1 lo hi step)
  show ?case
  proof (cases "lo < hi")
    case True
    have d: "(lo + step - hi) div step = (lo - hi) div step + 1"
    proof -
      have "lo + step - hi = (lo - hi) + step" by simp
      with 1(3) show ?thesis by (simp only: div_add_self2)
    qed
    show ?thesis
    proof (cases "lo + step < hi")
      case T2: True
      with True 1 d show ?thesis
        by (subst py_range.simps) simp
    next
      case F2: False
      with True 1(3) have "(lo - hi) div step = -1"
        by (intro int_div_pos_eq [where r = "lo - hi + step"]) auto
      with True F2 1 show ?thesis
        by (subst py_range.simps) simp
    qed
  next
    case False
    with 1(3) show ?thesis by (subst py_range.simps) simp
  qed
qed

lemma py_range_pos_nth:
  "0 < step \<Longrightarrow> j < length (py_range lo hi step) \<Longrightarrow> py_range lo hi step ! j = lo + int j * step"
proof (induction lo hi step arbitrary: j rule: py_range.induct)
  case (1 lo hi step)
  from 1(3,4) have lt: "lo < hi"
    by (subst (asm) py_range.simps) (auto split: if_splits)
  with 1(3) have eq: "py_range lo hi step = lo # py_range (lo + step) hi step"
    by (subst py_range.simps) simp
  show ?case
  proof (cases j)
    case 0
    with eq show ?thesis by simp
  next
    case (Suc j')
    with 1(4) eq have "j' < length (py_range (lo + step) hi step)" by simp
    from 1(1) [OF _ 1(3) this] lt 1(3) have "py_range (lo + step) hi step ! j' = lo + step + int j' * step"
      by simp
    with eq Suc show ?thesis by (simp add: algebra_simps)
  qed
qed

lemma py_range_pos_eq_map:
  assumes "0 < step"
  shows "py_range lo hi step = map (\<lambda>j. lo + int j * step) [0 ..< length (py_range lo hi step)]"
  by (rule nth_equalityI) (simp_all add: py_range_pos_nth assms)

section \<open>The chunking loop\<close>

lemma chunk_loop_returns:
  assumes "0 < step" "step = max_tokens - overlap" "n = int (length tokens)"
  shows "chunk_loop dec tokens max_tokens overlap i acc =
         Some (acc @ map (\<lambda>j. dec (py_slice tokens j (j + max_tokens))) (py_range i n step))"
  using assms
proof (induction i n step arbitrary: acc rule: py_range.induct)
  case (1 lo hi step)
  show ?case
  proof (cases "lo < hi")
    case True
    with 1 show ?thesis
      by (subst chunk_loop.simps, subst py_range.simps) simp
  next
    case False
    with 1 show ?thesis
      by (subst chunk_loop.simps, subst py_range.simps) simp
  qed
qed

lemma chunk_loop_no_result:
  assumes "chunk_loop dec tokens max_tokens overlap i acc = Some y"
  shows "\<not> (max_tokens - overlap \<le> 0 \<and> i < int (length tokens))"
proof (rule chunk_loop.raw_induct
    [where P = "\<lambda>dec tokens max_tokens overlap i acc y.
                  \<not> (max_tokens - overlap \<le> 0 \<and> i < int (length tokens))", OF _ assms])
  fix f :: "(token list \<Rightarrow> 'a) \<Rightarrow> token list \<Rightarrow> int \<Rightarrow> int \<Rightarrow> int \<Rightarrow> 'a list \<Rightarrow> 'a list option"
    and d ts m ov j cs z
  assume IH: "\<And>d ts m ov j cs z. f d ts m ov j cs = Some z \<Longrightarrow> \<not> (m - ov \<le> 0 \<and> j < int (length ts))"
    and body: "(if j < int (length ts)
                then f d ts m ov (j + (m - ov)) (cs @ [d (py_slice ts j (j + m))])
                else Some cs) = Some z"
  show "\<not> (m - ov \<le> 0 \<and> j < int (length ts))"
  proof
    assume a: "m - ov \<le> 0 \<and> j < int (length ts)"
    with body have "f d ts m ov (j + (m - ov)) (cs @ [d (py_slice ts j (j + m))]) = Some z"
      by simp
    from IH [OF this] a show False by simp
  qed
qed

lemma chunk_loop_diverges:
  assumes "max_tokens - overlap \<le> 0" "i < int (length tokens)"
  shows "chunk_loop dec tokens max_tokens overlap i acc = None"
proof (cases "chunk_loop dec tokens max_tokens overlap i acc")
  case None
  then show ?thesis .
next
  case (Some y)
  from chunk_loop_no_result [OF Some] assms show ?thesis by simp
qed

lemma window_count:
  assumes "0 < step"
  shows "length (py_range 0 (int n) step) = nat \<lceil>real n / real_of_int step\<rceil>"
proof -
  have "int (length (py_range 0 (int n) step)) = - (- int n div step)"
    using py_range_pos_length [OF assms, of 0 "int n"] by (cases "n = 0") simp_all
  also have "\<dots> = \<lceil>real_of_int (int n) / real_of_int step\<rceil>"
    by (simp only: ceiling_divide_eq_div)
  finally show ?thesis by simp
qed

lemma chunk_loop_closed_form:
  assumes "overlap < max_tokens"
  shows "chunk_loop dec tokens max_tokens overlap 0 [] =
     Some (map (\<lambda>j. dec (py_slice tokens (int j * (max_tokens - overlap))
                          (int j * (max_tokens - overlap) + max_tokens)))
            [0 ..< nat \<lceil>real (length tokens) / real_of_int (max_tokens - overlap)\<rceil>])"
proof -
  let ?step = "max_tokens - overlap"
  from assms have pos: "0 < ?step" by simp
  have "chunk_loop dec tokens max_tokens overlap 0 [] =
        Some (map (\<lambda>j. dec (py_slice tokens j (j + max_tokens))) (py_range 0 (int (length tokens)) ?step))"
    using chunk_loop_returns [OF pos refl refl, of dec tokens 0 "[]"] by simp
  also have "py_range 0 (int (length tokens)) ?step =
             map (\<lambda>j. int j * ?step) [0 ..< nat \<lceil>real (length tokens) / real_of_int ?step\<rceil>]"
    using py_range_pos_eq_map [OF pos, of 0 "int (length tokens)"] window_count [OF pos, of "length tokens"]
    by simp
  finally show ?thesis by (simp add: comp_def)
qed


section \<open>Claims about chunk\_text\<close>

text \<open>
  C1 (as amended). The claim asks that a call with \<open>overlap \<ge> max_tokens\<close> be refused
  with a configuration error before the loop. \<^verbatim>\<open>chunk_text\<close> checks nothing and has no
  error outcome: with \<open>overlap \<ge> max_tokens\<close> it returns the empty list when the text
  encodes to no token, and does not return when the text encodes to at least one
  token, because the window start never moves forward.
\<close>

theorem chunk_text_no_validation:
  assumes "max_tokens \<le> overlap"
  shows "chunk_text enc text max_tokens overlap = (if encode enc text = [] then Some [] else None)"
proof (cases "encode enc text = []")
  case True
  then show ?thesis by (simp add: chunk_text_def chunk_loop.simps)
next
  case False
  with assms show ?thesis by (simp add: chunk_text_def chunk_loop_diverges)
qed

theorem chunk_text_no_validation_witness:
  "(80::int) \<le> 80 \<and>
   chunk_text \<lparr>encode = \<lambda>s. s, decode = \<lambda>ts. ts\<rparr> [] 80 80 = Some [] \<and>
   chunk_text \<lparr>encode = \<lambda>s. s, decode = \<lambda>ts. ts\<rparr> [104, 105] 80 80 = None"
  using chunk_text_no_validation [of 80 80 "\<lparr>encode = \<lambda>s. s, decode = \<lambda>ts. ts\<rparr>" "[]"]
        chunk_text_no_validation [of 80 80 "\<lparr>encode = \<lambda>s. s, decode = \<lambda>ts. ts\<rparr>" "[104, 105]"]
  by simp

text \<open>
  The claim C1 as stated fails: with one token per code point, the two-character
  text \<open>hi\<close> and \<open>max_tokens = overlap = 100\<close>, the call is not refused; it does not
  return at all.
\<close>

theorem chunk_text_not_rejected_counterexample:
  "chunk_text \<lparr>encode = \<lambda>s. s, decode = \<lambda>ts. ts\<rparr> [104, 105] 100 100 = None"
  by (simp add: chunk_text_def chunk_loop_diverges)

text \<open>
  C6. For \<open>0 \<le> overlap < max_tokens\<close> the loop of \<^verbatim>\<open>chunk_text\<close> returns, after
  exactly \<open>ceil(len(tokens) / (max_tokens - overlap))\<close> iterations (each iteration
  appends one chunk; none for an empty token stream), and iteration \<open>j\<close> takes the
  window that starts at \<open>j * (max_tokens - overlap)\<close>.
\<close>

theorem chunk_text_ceil_iterations:
  assumes "0 \<le> overlap" "overlap < max_tokens"
  shows "chunk_text enc text max_tokens overlap =
     Some (map (\<lambda>j. decode enc (py_slice (encode enc text) (int j * (max_tokens - overlap))
                                   (int j * (max_tokens - overlap) + max_tokens)))
            [0 ..< nat \<lceil>real (length (encode enc text)) / real_of_int (max_tokens - overlap)\<rceil>])"
  unfolding chunk_text_def by (rule chunk_loop_closed_form [OF assms(2)])

theorem chunk_text_ceil_iterations_witness:
  "chunk_text \<lparr>encode = \<lambda>s. s, decode = \<lambda>ts. ts\<rparr> [1, 2, 3, 4, 5, 6, 7, 8, 9, 10] 5 2 =
     Some [[1, 2, 3, 4, 5], [4, 5, 6, 7, 8], [7, 8, 9, 10], [10]] \<and>
   chunk_text \<lparr>encode = \<lambda>s. s, decode = \<lambda>ts. ts\<rparr> [] 5 2 = Some []"
  using chunk_text_ceil_iterations [of 2 5 "\<lparr>encode = \<lambda>s. s, decode = \<lambda>ts. ts\<rparr>" "[1, 2, 3, 4, 5, 6, 7, 8, 9, 10]"]
        chunk_text_ceil_iterations [of 2 5 "\<lparr>encode = \<lambda>s. s, decode = \<lambda>ts. ts\<rparr>" "[]"]
  by (simp add: py_slice_def py_index_def upt_rec)

section \<open>Windows of chunk\_text\<close>

lemma chunk_windows_closed_form:
  assumes "overlap < max_tokens"
  shows "chunk_windows tokens max_tokens overlap =
     Some (map (\<lambda>j. py_slice tokens (int j * (max_tokens - overlap))
                      (int j * (max_tokens - overlap) + max_tokens))
            [0 ..< nat \<lceil>real (length tokens) / real_of_int (max_tokens - overlap)\<rceil>])"
  unfolding chunk_windows_def by (rule chunk_loop_closed_form [OF assms])


lemma window_nth:
  assumes "0 \<le> overlap" "overlap < max_tokens"
    and "chunk_windows tokens max_tokens overlap = Some ws" "j < length ws"
  shows "ws ! j = take (nat max_tokens) (drop (j * nat (max_tokens - overlap)) tokens)"
proof -
  let ?step = "max_tokens - overlap"
  from assms(3) chunk_windows_closed_form [OF assms(2), of tokens]
  have ws: "ws = map (\<lambda>j. py_slice tokens (int j * ?step) (int j * ?step + max_tokens))
                  [0 ..< nat \<lceil>real (length tokens) / real_of_int ?step\<rceil>]"
    by simp
  with assms(4) have "ws ! j = py_slice tokens (int j * ?step) (int j * ?step + max_tokens)"
    by simp
  also have "\<dots> = take (nat max_tokens) (drop (nat (int j * ?step)) tokens)"
    using assms(1,2) by (simp add: py_slice_nonneg)
  also have "nat (int j * ?step) = j * nat ?step"
    using assms(2) by (simp add: nat_mult_distrib)
  finally show ?thesis .
qed

text \<open>
  C5 (as amended). For \<open>0 \<le> overlap < max_tokens\<close>, whenever the loop takes a window
  \<open>i\<close> and a successor \<open>i + 1\<close>, the first \<open>overlap\<close> tokens of window \<open>i + 1\<close> are
  window \<open>i\<close> without its first \<open>max_tokens - overlap\<close> tokens; they are the last
  \<open>overlap\<close> tokens of window \<open>i\<close> whenever window \<open>i\<close> is full, that is, has
  \<open>max_tokens\<close> tokens.
\<close>

theorem chunk_windows_overlap:
  assumes "0 \<le> overlap" "overlap < max_tokens"
    and "chunk_windows tokens max_tokens overlap = Some ws" "Suc i < length ws"
  shows "take (nat overlap) (ws ! Suc i) = drop (nat (max_tokens - overlap)) (ws ! i) \<and>
         (length (ws ! i) = nat max_tokens \<longrightarrow>
            last_n (nat overlap) (ws ! i) = take (nat overlap) (ws ! Suc i))"
proof -
  let ?step = "nat (max_tokens - overlap)"
  from assms(4) have i: "i < length ws" by simp
  have a: "ws ! i = take (nat max_tokens) (drop (i * ?step) tokens)"
    by (rule window_nth [OF assms(1-3) i])
  have b: "ws ! Suc i = take (nat max_tokens) (drop (Suc i * ?step) tokens)"
    by (rule window_nth [OF assms(1-4)])
  have m: "nat max_tokens - ?step = nat overlap" "nat overlap \<le> nat max_tokens"
    using assms(1,2) by auto
  have first: "take (nat overlap) (ws ! Suc i) = drop ?step (ws ! i)"
    unfolding a b using m by (simp add: drop_take add.commute min_def)
  moreover have "last_n (nat overlap) (ws ! i) = take (nat overlap) (ws ! Suc i)"
    if "length (ws ! i) = nat max_tokens"
  proof -
    from that have "length (ws ! i) - nat overlap = ?step"
      using assms(1,2) by (simp add: nat_diff_distrib)
    with first show ?thesis by (simp add: last_n_def)
  qed
  ultimately show ?thesis by simp
qed

theorem chunk_windows_overlap_witness:
  "chunk_windows [1, 2, 3, 4, 5, 6, 7, 8, 9, 10] 5 2 =
     Some [[1, 2, 3, 4, 5], [4, 5, 6, 7, 8], [7, 8, 9, 10], [10]] \<and>
   take 2 [4, 5, 6, 7, 8 :: nat] = drop 3 [1, 2, 3, 4, 5] \<and>
   last_n 2 [1, 2, 3, 4, 5 :: nat] = take 2 [4, 5, 6, 7, 8]"
proof -
  have ws: "chunk_windows [1, 2, 3, 4, 5, 6, 7, 8, 9, 10] 5 2 =
     Some [[1, 2, 3, 4, 5], [4, 5, 6, 7, 8], [7, 8, 9, 10], [10]]"
    by (simp add: chunk_windows_def chunk_loop.simps py_slice_def py_index_def)
  from chunk_windows_overlap [OF _ _ ws, of 0] ws show ?thesis by simp
qed

text \<open>
  The claim C5 as stated fails at the end of the stream: for the tokens \<open>1, 2, 3\<close>
  with \<open>max_tokens = 3\<close> and \<open>overlap = 2\<close> the windows are \<open>[1,2,3]\<close>, \<open>[2,3]\<close>, \<open>[3]\<close>;
  the last two tokens of the second are \<open>[2,3]\<close>, the first two of the third are \<open>[3]\<close>.
\<close>

theorem chunk_windows_overlap_counterexample:
  "chunk_windows [1, 2, 3] 3 2 = Some [[1, 2, 3], [2, 3], [3]] \<and>
   last_n 2 ([[1, 2, 3], [2, 3], [3 :: nat]] ! 1) \<noteq> take 2 ([[1, 2, 3], [2, 3], [3]] ! 2)"
  by (simp add: chunk_windows_def chunk_loop.simps py_slice_def py_index_def last_n_def)



section \<open>Text normalisation\<close>

lemma isspace_32: "isspace 32"
  by (simp add: isspace_def)

lemma single_spaced_Cons:
  "single_spaced (c # xs) \<longleftrightarrow>
     (isspace c \<longrightarrow> c = 32 \<and> (xs = [] \<or> \<not> isspace (hd xs))) \<and> single_spaced xs"
  by (cases xs) auto

lemma re_sub_ws_hd:
  "xs \<noteq> [] \<Longrightarrow> \<not> isspace (hd xs) \<Longrightarrow> re_sub_ws xs \<noteq> [] \<and> hd (re_sub_ws xs) = hd xs"
  by (cases xs) auto

lemma single_spaced_re_sub_ws: "single_spaced (re_sub_ws s)"
proof (induction s rule: re_sub_ws.induct)
  case 1
  show ?case by simp
next
  case (2 c cs)
  show ?case
  proof (cases "isspace c")
    case True
    let ?r = "dropWhile isspace cs"
    have "re_sub_ws ?r = [] \<or> \<not> isspace (hd (re_sub_ws ?r))"
    proof (cases "?r = []")
      case True
      then have "re_sub_ws ?r = []" by (simp only: re_sub_ws.simps)
      then show ?thesis ..
    next
      case False
      then have "\<not> isspace (hd ?r)" by (rule hd_dropWhile)
      with False re_sub_ws_hd [of ?r] show ?thesis by simp
    qed
    with True 2(1) show ?thesis by (simp add: single_spaced_Cons)
  next
    case False
    with 2(2) show ?thesis by (simp add: single_spaced_Cons)
  qed
qed

lemma re_sub_ws_single_spaced: "single_spaced xs \<Longrightarrow> re_sub_ws xs = xs"
proof (induction xs rule: re_sub_ws.induct)
  case 1
  show ?case by simp
next
  case (2 c cs)
  from 2(3) have tl: "single_spaced cs" by (simp add: single_spaced_Cons)
  show ?case
  proof (cases "isspace c")
    case True
    with 2(3) have c: "c = 32" and h: "cs = [] \<or> \<not> isspace (hd cs)"
      by (simp_all add: single_spaced_Cons)
    from h have "dropWhile isspace cs = cs" by (cases cs) auto
    with True c tl 2(1) show ?thesis by simp
  next
    case False
    with tl 2(2) show ?thesis by simp
  qed
qed

lemma single_spaced_append:
  "single_spaced (xs @ ys) \<Longrightarrow> single_spaced xs \<and> single_spaced ys"
proof (induction xs)
  case Nil
  then show ?case by simp
next
  case (Cons a xs)
  then show ?case by (cases xs) (auto simp: single_spaced_Cons)
qed

lemma strip_infix: "\<exists>a b. x = a @ strip x @ b"
proof -
  let ?z = "dropWhile isspace x"
  have 1: "x = takeWhile isspace x @ ?z" by simp
  have "rev (dropWhile isspace (rev ?z)) @ rev (takeWhile isspace (rev ?z)) = ?z"
    by (metis rev_append rev_rev_ident takeWhile_dropWhile_id)
  then have 2: "?z = strip x @ rev (takeWhile isspace (rev ?z))"
    by (simp only: strip_def)
  from 1 2 have "x = takeWhile isspace x @ strip x @ rev (takeWhile isspace (rev ?z))" by simp
  then show ?thesis by blast
qed

lemma single_spaced_strip: "single_spaced x \<Longrightarrow> single_spaced (strip x)"
proof -
  assume s: "single_spaced x"
  obtain a b where "x = a @ strip x @ b" using strip_infix by blast
  with s have "single_spaced (a @ strip x @ b)" by simp
  then show ?thesis using single_spaced_append by blast
qed

lemma strip_no_trailing: "strip x = [] \<or> \<not> isspace (last (strip x))"
proof (cases "dropWhile isspace (rev (dropWhile isspace x))")
  case Nil
  then have "strip x = []" by (simp only: strip_def rev.simps)
  then show ?thesis ..
next
  case (Cons a d)
  with hd_dropWhile [of isspace "rev (dropWhile isspace x)"] have "\<not> isspace a" by simp
  moreover from Cons have "strip x = rev d @ [a]" by (simp only: strip_def rev.simps)
  ultimately show ?thesis by simp
qed

lemma strip_no_leading: "strip x = [] \<or> \<not> isspace (hd (strip x))"
proof (cases "dropWhile isspace x")
  case Nil
  then have "strip x = []" by (simp only: strip_def rev.simps dropWhile.simps)
  then show ?thesis ..
next
  case (Cons a z)
  with hd_dropWhile [of isspace x] have a: "\<not> isspace a" by simp
  have "dropWhile isspace (rev z @ [a]) = dropWhile isspace (rev z) @ [a]"
    using a by (simp add: dropWhile_append3)
  with Cons have "strip x = a # rev (dropWhile isspace (rev z))" by (simp add: strip_def)
  with a show ?thesis by simp
qed

lemma strip_fixed: "y = [] \<or> (\<not> isspace (hd y) \<and> \<not> isspace (last y)) \<Longrightarrow> strip y = y"
proof (cases y)
  case Nil
  then show ?thesis by (simp add: strip_def)
next
  case (Cons a z)
  assume "y = [] \<or> (\<not> isspace (hd y) \<and> \<not> isspace (last y))"
  with Cons have a: "\<not> isspace a" and l: "\<not> isspace (last y)" by simp_all
  from a Cons have 1: "dropWhile isspace y = y" by simp
  from Cons have ne: "y \<noteq> []" by simp
  then have "hd (rev y) = last y" by (simp only: hd_rev)
  with l have "\<not> isspace (hd (rev y))" by simp
  moreover from ne have "rev y \<noteq> []" by simp
  ultimately have "dropWhile isspace (rev y) = rev y" by (cases "rev y") auto
  with 1 show ?thesis by (simp add: strip_def)
qed

lemma strip_strip: "strip (strip x) = strip x"
  using strip_no_leading [of x] strip_no_trailing [of x] by (intro strip_fixed) auto

lemma single_spaced_no_run:
  "single_spaced xs \<Longrightarrow> Suc i < length xs \<Longrightarrow> \<not> (isspace (xs ! i) \<and> isspace (xs ! Suc i))"
proof (induction xs arbitrary: i rule: single_spaced.induct)
  case 1
  then show ?case by simp
next
  case (2 c)
  then show ?case by simp
next
  case (3 c d cs)
  show ?case
  proof (cases i)
    case 0
    with 3(2) show ?thesis by auto
  next
    case (Suc j)
    with 3 show ?thesis by simp
  qed
qed

text \<open>
  C10. \<^verbatim>\<open>clean\<close> is idempotent: its output has no two adjacent whitespace characters
  and no whitespace at either end, so cleaning it again changes nothing.
\<close>

theorem clean_idempotent:
  "clean (clean s) = clean s \<and>
   (\<forall>i. Suc i < length (clean s) \<longrightarrow> \<not> (isspace (clean s ! i) \<and> isspace (clean s ! Suc i))) \<and>
   (clean s \<noteq> [] \<longrightarrow> \<not> isspace (hd (clean s)) \<and> \<not> isspace (last (clean s)))"
proof -
  have ss: "single_spaced (clean s)"
    unfolding clean_def by (rule single_spaced_strip [OF single_spaced_re_sub_ws])
  have "clean (clean s) = strip (clean s)"
    by (simp add: clean_def [of "clean s"] re_sub_ws_single_spaced [OF ss])
  also have "\<dots> = clean s" by (simp add: clean_def strip_strip)
  finally have 1: "clean (clean s) = clean s" .
  from ss have 2: "\<forall>i. Suc i < length (clean s) \<longrightarrow> \<not> (isspace (clean s ! i) \<and> isspace (clean s ! Suc i))"
    by (blast dest: single_spaced_no_run)
  have 3: "clean s \<noteq> [] \<longrightarrow> \<not> isspace (hd (clean s)) \<and> \<not> isspace (last (clean s))"
    using strip_no_leading [of "re_sub_ws s"] strip_no_trailing [of "re_sub_ws s"]
    by (auto simp: clean_def)
  from 1 2 3 show ?thesis by blast
qed

theorem clean_idempotent_witness:
  "clean [32, 97, 9, 10, 32, 98, 160] = [97, 32, 98] \<and> clean (clean [32, 97, 9, 10, 32, 98, 160]) = [97, 32, 98]"
proof -
  have c: "clean [32, 97, 9, 10, 32, 98, 160] = [97, 32, 98]"
    by (simp add: clean_def strip_def isspace_def)
  from clean_idempotent [of "[32, 97, 9, 10, 32, 98, 160]"] c show ?thesis by simp
qed

section \<open>Batched embedding\<close>

lemma embed_batches_loop_eq:
  assumes "\<forall>b. service b = map emb b"
  shows "embed_batches_loop service texts batch_size starts acc w =
     (acc @ map emb (concat (map (\<lambda>i. py_slice texts i (i + batch_size)) starts)),
      w\<lparr>embed_calls := embed_calls w @ map (\<lambda>i. py_slice texts i (i + batch_size)) starts\<rparr>)"
  using assms
  by (induction starts arbitrary: acc w) (simp_all add: embeddings_create_def Let_def)

lemma concat_slices:
  assumes "0 < step" "0 \<le> lo"
  shows "concat (map (\<lambda>i. py_slice xs i (i + step)) (py_range lo (int (length xs)) step)) = drop (nat lo) xs"
  using assms
proof (induction lo "int (length xs)" step rule: py_range.induct)
  case (1 lo step)
  show ?case
  proof (cases "lo < int (length xs)")
    case True
    with 1(3,4) have r: "py_range lo (int (length xs)) step = lo # py_range (lo + step) (int (length xs)) step"
      by (subst py_range.simps) simp
    from 1(3,4) True have ih: "concat (map (\<lambda>i. py_slice xs i (i + step)) (py_range (lo + step) (int (length xs)) step))
        = drop (nat (lo + step)) xs"
      by (intro 1(1)) auto
    have "drop (nat (lo + step)) xs = drop (nat step) (drop (nat lo) xs)"
      using 1(3,4) by (simp add: nat_add_distrib add.commute)
    then have "take (nat step) (drop (nat lo) xs) @ drop (nat (lo + step)) xs = drop (nat lo) xs"
      by (simp only: append_take_drop_id)
    with r ih 1(3,4) show ?thesis by (simp add: py_slice_nonneg)
  next
    case False
    with 1(3,4) show ?thesis by (subst py_range.simps) simp
  qed
qed

lemma concat_batches_of: "0 < batch_size \<Longrightarrow> concat (batches_of texts batch_size) = texts"
  using concat_slices [of batch_size 0 texts] by (simp add: batches_of_def)

lemma batch_sizes:
  assumes "0 < batch_size" "b \<in> set (batches_of texts batch_size)"
  shows "1 \<le> length b \<and> int (length b) \<le> batch_size"
proof -
  from assms(2) obtain i where i: "i \<in> set (py_range 0 (int (length texts)) batch_size)"
    and b: "b = py_slice texts i (i + batch_size)" by (auto simp: batches_of_def)
  from i obtain j where "j < length (py_range 0 (int (length texts)) batch_size)"
    "i = py_range 0 (int (length texts)) batch_size ! j" by (auto simp: in_set_conv_nth)
  with py_range_pos_nth [OF assms(1), of j 0 "int (length texts)"]
  have ij: "i = int j * batch_size" and jl: "int j < - (- int (length texts) div batch_size)"
    using py_range_pos_length [OF assms(1), of 0 "int (length texts)"] by (auto split: if_splits)
  have "i < int (length texts)"
  proof (rule ccontr)
    assume "\<not> i < int (length texts)"
    with ij have "int (length texts) \<le> int j * batch_size" by simp
    then have "- (int j * batch_size) \<le> - int (length texts)" by simp
    then have "(- (int j * batch_size)) div batch_size \<le> (- int (length texts)) div batch_size"
      using assms(1) by (intro zdiv_mono1) auto
    moreover have "(- (int j * batch_size)) div batch_size = - int j"
      using assms(1) nonzero_mult_div_cancel_right [of batch_size "- int j"] by simp
    ultimately have "- int j \<le> (- int (length texts)) div batch_size" by simp
    with jl show False by simp
  qed
  moreover from ij assms(1) have "0 \<le> i" by simp
  ultimately show ?thesis using assms(1) b by (auto simp: py_slice_nonneg min_def)
qed

lemma batches_130:
  assumes "length texts = 130"
  shows "map length (batches_of texts 64) = [64, 64, 2]"
proof -
  have "py_range 0 130 64 = [0, 64, 128]"
    by (simp add: py_range.simps)
  with assms show ?thesis
    by (simp add: batches_of_def py_slice_nonneg)
qed

text \<open>
  C4. For a batch size of at least 1 and an embedding service that answers every
  batch with the embeddings of its strings, in order, \<^verbatim>\<open>embed_batches\<close> returns one
  vector per input string, the \<open>i\<close>-th being the embedding of \<open>texts[i]\<close>. The service
  is called once per batch, in order; the batches are non-empty, of at most
  \<open>batch_size\<close> strings, and joined they are \<open>texts\<close>. With 130 inputs and batch size 64
  there are three batches, of 64, 64 and 2 strings.
\<close>

theorem embed_batches_aligned:
  assumes "1 \<le> batch_size" "\<forall>b. service b = map emb b"
  shows "embed_batches service texts batch_size w =
           (Inr (map emb texts), w\<lparr>embed_calls := embed_calls w @ batches_of texts batch_size\<rparr>) \<and>
         concat (batches_of texts batch_size) = texts \<and>
         (\<forall>b \<in> set (batches_of texts batch_size). 1 \<le> length b \<and> int (length b) \<le> batch_size) \<and>
         (length texts = 130 \<and> batch_size = 64 \<longrightarrow>
            map length (batches_of texts batch_size) = [64, 64, 2])"
proof -
  from assms(1) have pos: "0 < batch_size" by simp
  have c: "concat (batches_of texts batch_size) = texts"
    by (rule concat_batches_of [OF pos])
  have "embed_batches service texts batch_size w =
          (Inr (map emb (concat (batches_of texts batch_size))),
           w\<lparr>embed_calls := embed_calls w @ batches_of texts batch_size\<rparr>)"
    using pos by (simp add: embed_batches_def embed_batches_loop_eq [OF assms(2)] batches_of_def)
  with c have 1: "embed_batches service texts batch_size w =
          (Inr (map emb texts), w\<lparr>embed_calls := embed_calls w @ batches_of texts batch_size\<rparr>)"
    by simp
  have 2: "\<forall>b \<in> set (batches_of texts batch_size). 1 \<le> length b \<and> int (length b) \<le> batch_size"
    using batch_sizes [OF pos] by blast
  have 3: "length texts = 130 \<and> batch_size = 64 \<longrightarrow>
            map length (batches_of texts batch_size) = [64, 64, 2]"
    using batches_130 by blast
  from 1 c 2 3 show ?thesis by blast
qed

theorem embed_batches_aligned_witness:
  "embed_batches (map length) [[1], [2, 2], [3, 3, 3]] 2 \<lparr>embed_calls = [], chroma = Map.empty, data_files = {}\<rparr> =
     (Inr [1, 2, 3], \<lparr>embed_calls = [[[1], [2, 2]], [[3, 3, 3]]], chroma = Map.empty, data_files = {}\<rparr>) \<and>
   map length (batches_of (replicate 130 [7 :: nat]) 64) = [64, 64, 2]"
proof -
  let ?w = "\<lparr>embed_calls = [], chroma = Map.empty, data_files = {}\<rparr> :: nat world"
  let ?texts = "[[1], [2, 2], [3, 3, 3 :: nat]]"
  have b: "batches_of ?texts 2 = [[[1], [2, 2]], [[3, 3, 3]]]"
    by (simp add: batches_of_def py_range.simps py_slice_def py_index_def)
  have h: "\<forall>b :: nat list list. map length b = map length b" by simp
  have "embed_batches (map length) ?texts 2 ?w =
          (Inr (map length ?texts), ?w\<lparr>embed_calls := embed_calls ?w @ batches_of ?texts 2\<rparr>)"
  proof -
    have "(1 :: int) \<le> 2" by simp
    from embed_batches_aligned [of 2 "map length" length ?texts ?w, OF this h]
    show ?thesis by (rule conjunct1)
  qed
  then have 1: "embed_batches (map length) ?texts 2 ?w =
      (Inr [1, 2, 3], \<lparr>embed_calls = [[[1], [2, 2]], [[3, 3, 3]]], chroma = Map.empty, data_files = {}\<rparr>)"
    unfolding b by simp
  have 2: "map length (batches_of (replicate 130 [7 :: nat]) 64) = [64, 64, 2]"
  proof -
    have "(1 :: int) \<le> 64" by simp
    from embed_batches_aligned [of 64 "map length" length "replicate 130 [7]" ?w, OF this h]
    have "length (replicate 130 [7 :: nat]) = 130 \<and> (64 :: int) = 64 \<longrightarrow>
            map length (batches_of (replicate 130 [7 :: nat]) 64) = [64, 64, 2]"
      by blast
    then show ?thesis by simp
  qed
  from 1 2 show ?thesis by blast
qed

section \<open>Ingesting a document without text\<close>





section \<open>Deleting the records of a document\<close>

lemma where_matches_source:
  "where_matches [(''source'', MStr filename)] m \<longleftrightarrow> map_of m ''source'' = Some (MStr filename)"
  by (simp add: where_matches_def)

text \<open>
  C9. Deleting a document by its stored file name removes from the collection exactly
  the records whose metadata \<open>source\<close> is that name: what remains is the collection as it
  was, in order, without those records, so every record with another source is kept
  unchanged. No other collection changes.
\<close>

theorem delete_pdf_scope:
  "\<exists>w'. delete_pdf filename w = (True, w') \<and>
        col_records w' (''chroma'', ''edu-tutor'') =
          filter (\<lambda>r. map_of (rec_metadata r) ''source'' \<noteq> Some (MStr filename))
            (col_records w (''chroma'', ''edu-tutor'')) \<and>
        (\<forall>key. key \<noteq> (''chroma'', ''edu-tutor'') \<longrightarrow> col_records w' key = col_records w key) \<and>
        embed_calls w' = embed_calls w \<and>
        data_files w' = data_files w - {filename}"
  by (auto simp: delete_pdf_def Let_def get_or_create_collection_def col_delete_def col_records_def
        where_matches_source split: option.splits)

theorem delete_pdf_scope_witness:
  "\<exists>w'. delete_pdf ''a.pdf''
          \<lparr>embed_calls = [],
           chroma = [(''chroma'', ''edu-tutor'') \<mapsto>
             [\<lparr>rec_id = ''a.pdf-p1-0-0f3a9c1e'', rec_document = [104, 105],
               rec_metadata = [(''source'', MStr ''a.pdf''), (''page'', MInt 1)], rec_embedding = 1 :: nat\<rparr>,
              \<lparr>rec_id = ''b.pdf-p1-0-77aa01bc'', rec_document = [104, 111],
               rec_metadata = [(''source'', MStr ''b.pdf''), (''page'', MInt 1)], rec_embedding = 2\<rparr>,
              \<lparr>rec_id = ''a.pdf-p2-0-c0ffee00'', rec_document = [121, 111],
               rec_metadata = [(''source'', MStr ''a.pdf''), (''page'', MInt 2)], rec_embedding = 3\<rparr>]],
           data_files = {''a.pdf'', ''b.pdf''}\<rparr> = (True, w') \<and>
        col_records w' (''chroma'', ''edu-tutor'') =
          [\<lparr>rec_id = ''b.pdf-p1-0-77aa01bc'', rec_document = [104, 111],
            rec_metadata = [(''source'', MStr ''b.pdf''), (''page'', MInt 1)], rec_embedding = 2\<rparr>] \<and>
        data_files w' = {''b.pdf''}"
  using delete_pdf_scope [of "''a.pdf''"
          "\<lparr>embed_calls = [],
           chroma = [(''chroma'', ''edu-tutor'') \<mapsto>
             [\<lparr>rec_id = ''a.pdf-p1-0-0f3a9c1e'', rec_document = [104, 105],
               rec_metadata = [(''source'', MStr ''a.pdf''), (''page'', MInt 1)], rec_embedding = 1 :: nat\<rparr>,
              \<lparr>rec_id = ''b.pdf-p1-0-77aa01bc'', rec_document = [104, 111],
               rec_metadata = [(''source'', MStr ''b.pdf''), (''page'', MInt 1)], rec_embedding = 2\<rparr>,
              \<lparr>rec_id = ''a.pdf-p2-0-c0ffee00'', rec_document = [121, 111],
               rec_metadata = [(''source'', MStr ''a.pdf''), (''page'', MInt 2)], rec_embedding = 3\<rparr>]],
           data_files = {''a.pdf'', ''b.pdf''}\<rparr>"]
  by (auto simp: col_records_def)

section \<open>Retrieval: de-duplication and truncation\<close>

lemma kept_Cons:
  assumes "int n + 1 \<noteq> k"
  shows "kept k n (x # xs) = x # kept k (Suc n) xs"
proof (cases "int n < k")
  case True
  with assms have lt: "int (Suc n) < k" by simp
  then have "nat (k - int n) = Suc (nat (k - int (Suc n)))" by simp
  with True lt show ?thesis by (simp only: kept_def if_True take_Suc_Cons)
next
  case False
  then show ?thesis by (simp add: kept_def)
qed

lemma retrieve_loop_eq:
  "retrieve_loop k cs uniq (od, om, oi) =
     (let ks = kept k (length od) (first_per_key uniq (filter passes_guard cs))
      in (od @ map fst ks, om @ map (\<lambda>c. fst (snd c)) ks, oi @ map (\<lambda>c. snd (snd c)) ks))"
proof (induction cs arbitrary: uniq od om oi)
  case Nil
  show ?case by (simp add: kept_def)
next
  case (Cons c cs)
  obtain d m i where c: "c = (d, m, i)" by (cases c) auto
  have ck: "cand_key (d, m, i) = meta_key m" by (simp add: cand_key_def)
  have pg: "passes_guard (d, m, i) \<longleftrightarrow> \<not> (not_doc d \<or> not_meta m)" by (simp add: passes_guard_def)
  show ?case
  proof (cases "not_doc d \<or> not_meta m")
    case True
    with pg have "\<not> passes_guard (d, m, i)" by simp
    with True Cons show ?thesis unfolding c by simp
  next
    case False
    with pg have g: "passes_guard (d, m, i)" by simp
    show ?thesis
    proof (cases "meta_key m \<in> uniq")
      case True
      with g False ck Cons show ?thesis unfolding c by simp
    next
      case new: False
      show ?thesis
      proof (cases "int (length od) + 1 = k")
        case True
        then have "nat (k - int (length od)) = Suc 0" by simp
        with True g False new ck show ?thesis unfolding c
          by (simp add: kept_def Let_def)
      next
        case ne: False
        have "kept k (length od) (x # xs) = x # kept k (Suc (length od)) xs" for x :: candidate and xs
          using ne by (rule kept_Cons)
        with ne g False new ck Cons [of "insert (meta_key m) uniq" "od @ [d]" "om @ [m]" "oi @ [i]"]
        show ?thesis unfolding c
          by (simp add: Let_def)
      qed
    qed
  qed
qed

lemma first_per_key_set:
  "x \<in> set (first_per_key seen cs) \<Longrightarrow> cand_key x \<notin> seen \<and> x \<in> set cs"
  by (induction cs arbitrary: seen) (auto split: if_splits)

lemma first_per_key_distinct: "distinct (map cand_key (first_per_key seen cs))"
  by (induction cs arbitrary: seen) (auto dest: first_per_key_set)


lemma first_per_key_keys:
  "cand_key ` set (first_per_key seen cs) = cand_key ` set cs - seen"
  by (induction cs arbitrary: seen) auto

lemma first_per_key_length:
  "length (first_per_key seen cs) = card (cand_key ` set cs - seen)"
proof -
  have "length (first_per_key seen cs) = length (map cand_key (first_per_key seen cs))" by simp
  also have "\<dots> = card (set (map cand_key (first_per_key seen cs)))"
    by (rule distinct_card [symmetric]) (rule first_per_key_distinct)
  also have "\<dots> = card (cand_key ` set cs - seen)"
    by (simp add: first_per_key_keys)
  finally show ?thesis .
qed


lemma kept_subset: "set (kept k n xs) \<subseteq> set xs"
  by (auto simp: kept_def dest: in_set_takeD)


lemma kept_length:
  "int (length (kept k 0 xs)) = (if 0 < k \<and> k < int (length xs) then k else int (length xs))"
  by (auto simp: kept_def)

lemma zip3_maps:
  "zip (map fst ks) (zip (map (\<lambda>c. fst (snd c)) ks) (map (\<lambda>c. snd (snd c)) ks)) = ks"
  by (induction ks) auto

lemma retrieve_loop_start:
  assumes "retrieve_loop k cs {} ([], [], []) = (od, om, oi)"
  shows "od = map fst (kept k 0 (first_per_key {} (filter passes_guard cs)))"
    and "om = map (\<lambda>c. fst (snd c)) (kept k 0 (first_per_key {} (filter passes_guard cs)))"
    and "oi = map (\<lambda>c. snd (snd c)) (kept k 0 (first_per_key {} (filter passes_guard cs)))"
    and "zip od (zip om oi) = kept k 0 (first_per_key {} (filter passes_guard cs))"
proof -
  from assms retrieve_loop_eq [of k cs "{}" "[]" "[]" "[]"]
  show 1: "od = map fst (kept k 0 (first_per_key {} (filter passes_guard cs)))"
    and 2: "om = map (\<lambda>c. fst (snd c)) (kept k 0 (first_per_key {} (filter passes_guard cs)))"
    and 3: "oi = map (\<lambda>c. snd (snd c)) (kept k 0 (first_per_key {} (filter passes_guard cs)))"
    by (simp_all add: Let_def)
  show "zip od (zip om oi) = kept k 0 (first_per_key {} (filter passes_guard cs))"
    unfolding 1 2 3 by (rule zip3_maps)
qed





text \<open>
  C3. For every query and every \<open>k \<ge> 1\<close>, when the embedding service and the store
  return (the store one row of documents, metadatas, distances and ids), \<^verbatim>\<open>retrieve\<close>
  returns three lists of equal length at most \<open>k\<close>, whose entries at an index come from
  one candidate; the length is less than \<open>k\<close> exactly when the candidates that pass the
  guard have fewer than \<open>k\<close> different \<open>(source, page)\<close> keys.
\<close>

theorem retrieve_at_most_k:
  assumes "1 \<le> k"
    and "service [q] = qvec # others"
    and "first_row (res_documents (col_query qvec k)) = Inr docs"
    and "first_row (res_metadatas (col_query qvec k)) = Inr metas"
    and "first_row (res_distances (col_query qvec k)) = Inr dists"
    and "first_row (res_ids (col_query qvec k)) = Inr ids"
  shows "\<exists>out_docs out_metas out_ids.
     retrieve service col_query q k = Inr (out_docs, out_metas, out_ids) \<and>
     length out_docs = length out_metas \<and> length out_metas = length out_ids \<and>
     int (length out_docs) \<le> k \<and>
     set (zip out_docs (zip out_metas out_ids)) \<subseteq> set (zip docs (zip metas ids)) \<and>
     (int (length out_docs) < k \<longleftrightarrow>
        int (card (cand_key ` {c \<in> set (zip docs (zip metas ids)). passes_guard c})) < k)"
proof -
  let ?cs = "zip docs (zip metas ids)"
  let ?F = "first_per_key {} (filter passes_guard ?cs)"
  obtain od om oi where out: "retrieve_loop k ?cs {} ([], [], []) = (od, om, oi)"
    by (cases "retrieve_loop k ?cs {} ([], [], [])") auto
  note eqs = retrieve_loop_start [OF out]
  have r: "retrieve service col_query q k = Inr (od, om, oi)"
    using assms(2-6) out by (simp add: retrieve_def embed_def Let_def)
  have 1: "length od = length om \<and> length om = length oi" by (simp add: eqs(1-3))
  have len: "int (length od) = (if 0 < k \<and> k < int (length ?F) then k else int (length ?F))"
    by (simp add: eqs(1) kept_length)
  have F: "length ?F = card (cand_key ` {c \<in> set ?cs. passes_guard c})"
    by (simp add: first_per_key_length)
  have 2: "int (length od) \<le> k" using len assms(1) by (simp split: if_splits)
  have 3: "set (zip od (zip om oi)) \<subseteq> set ?cs"
  proof
    fix x assume "x \<in> set (zip od (zip om oi))"
    then have "x \<in> set ?F" using kept_subset [of k 0 ?F] by (auto simp: eqs(4))
    from first_per_key_set [OF this] show "x \<in> set ?cs" by simp
  qed
  have 4: "int (length od) < k \<longleftrightarrow> int (card (cand_key ` {c \<in> set ?cs. passes_guard c})) < k"
    using len assms(1) by (simp add: F split: if_splits)
  from r 1 2 3 4 show ?thesis by blast
qed

theorem retrieve_at_most_k_witness:
  "retrieve (map length)
     (\<lambda>qvec n. \<lparr>res_documents = Some [[Some [97], Some [98], Some [99]]],
                res_metadatas = Some [[Some [(''source'', MStr ''A''), (''page'', MInt 1)],
                                       Some [(''source'', MStr ''A''), (''page'', MInt 1)],
                                       Some [(''source'', MStr ''B''), (''page'', MInt 2)]]],
                res_distances = Some [[1, 2, 3 :: nat]],
                res_ids = Some [[''id1'', ''id2'', ''id3'']]\<rparr>)
     [113] 6 =
   Inr ([Some [97], Some [99]],
        [Some [(''source'', MStr ''A''), (''page'', MInt 1)], Some [(''source'', MStr ''B''), (''page'', MInt 2)]],
        [''id1'', ''id3'']) \<and>
   int (card (cand_key ` {c \<in> set (zip [Some [97], Some [98], Some [99]]
        (zip [Some [(''source'', MStr ''A''), (''page'', MInt 1)],
              Some [(''source'', MStr ''A''), (''page'', MInt 1)],
              Some [(''source'', MStr ''B''), (''page'', MInt 2)]]
             [''id1'', ''id2'', ''id3''])). passes_guard c})) < 6"
proof -
  let ?docs = "[Some [97], Some [98], Some [99 :: nat]]"
  let ?metas = "[Some [(''source'', MStr ''A''), (''page'', MInt 1)],
                 Some [(''source'', MStr ''A''), (''page'', MInt 1)],
                 Some [(''source'', MStr ''B''), (''page'', MInt 2)]]"
  let ?ids = "[''id1'', ''id2'', ''id3'']"
  let ?Q = "\<lambda>(qvec :: nat) (n :: int). \<lparr>res_documents = Some [?docs], res_metadatas = Some [?metas],
                res_distances = Some [[1, 2, 3 :: nat]], res_ids = Some [?ids]\<rparr>"
  have ev: "retrieve (map length) ?Q [113] 6 =
     Inr ([Some [97], Some [99]],
        [Some [(''source'', MStr ''A''), (''page'', MInt 1)], Some [(''source'', MStr ''B''), (''page'', MInt 2)]],
        [''id1'', ''id3''])"
    by (simp add: retrieve_def embed_def first_row_def not_doc_def not_meta_def meta_key_def)
  have k: "(1 :: int) \<le> 6" by simp
  have s: "map length [[113 :: nat]] = 1 # []" by simp
  have r1: "first_row (res_documents (?Q 1 6)) = Inr ?docs"
    and r2: "first_row (res_metadatas (?Q 1 6)) = Inr ?metas"
    and r3: "first_row (res_distances (?Q 1 6)) = Inr [1, 2, 3]"
    and r4: "first_row (res_ids (?Q 1 6)) = Inr ?ids"
    by (simp_all add: first_row_def)
  from retrieve_at_most_k [of 6 "map length" "[113]" 1 "[]" ?Q ?docs ?metas "[1, 2, 3]" ?ids,
      OF k s r1 r2 r3 r4]
  obtain od om oi where o: "retrieve (map length) ?Q [113] 6 = Inr (od, om, oi)"
    and c: "int (length od) < 6 \<longleftrightarrow>
        int (card (cand_key ` {c \<in> set (zip ?docs (zip ?metas ?ids)). passes_guard c})) < 6"
    by blast
  from o ev have "od = [Some [97], Some [99]]" by simp
  with c have "int (card (cand_key ` {c \<in> set (zip ?docs (zip ?metas ?ids)). passes_guard c})) < 6"
    by simp
  with ev show ?thesis by blast
qed

end
